theory Spec2Isabelle
  imports Complex_Main
begin

section \<open>Tesserae scoring (pytesserae/score.py)\<close>

text \<open>
  The module has three pure functions and one helper. Python values are embedded as
  follows.
  \<^item> A token is a \<open>string\<close>; a chunk is a \<open>string list\<close>.
  \<^item> The set \<open>matching_terms\<close> is only ever iterated (\<open>tuple(matching_terms)\<close>, a list
    comprehension) or measured (\<open>len\<close>), so it is given by the list of its elements in
    iteration order. A list that stands for a set is \<open>distinct\<close>; theorems say so where
    they need it, and quantify over the list where the claim is about every order.
  \<^item> A dictionary of counts is an association list \<open>(string \<times> int) list\<close>; \<open>counts[k]\<close>
    is \<open>map_of\<close>, \<open>counts.values()\<close> is \<open>map snd\<close>.
  \<^item> Python integers are \<open>int\<close>.
  \<^item> Python floats are read as exact reals: \<open>/\<close> is the true division of Python 3, taken
    as real division, and \<open>math.log\<close> is \<open>ln\<close>. Rounding, overflow to infinity and underflow are not part of the model; the
    exceptions that \<open>/\<close> and \<open>math.log\<close> raise on a zero divisor and on a non-positive
    argument are.
  \<^item> Every exception is a value: a function returns \<open>py_error + 'a\<close>, \<open>Inl\<close> for the
    exception raised, \<open>Inr\<close> for the value returned.
\<close>

datatype py_error = KeyError | IndexError | ValueError | ZeroDivisionError

type_synonym counts = "(string \<times> int) list"

subsection \<open>Python primitives that can raise\<close>

definition and_then :: "py_error + 'a \<Rightarrow> ('a \<Rightarrow> py_error + 'b) \<Rightarrow> py_error + 'b" where
  "and_then r k = (case r of Inl e \<Rightarrow> Inl e | Inr v \<Rightarrow> k v)"

text \<open>\<open>counts[k]\<close>: KeyError when the key is missing, no default.\<close>

definition getitem :: "counts \<Rightarrow> string \<Rightarrow> py_error + int" where
  "getitem counts k = (case map_of counts k of None \<Rightarrow> Inl KeyError | Some v \<Rightarrow> Inr v)"

text \<open>\<open>a / b\<close> (true division): ZeroDivisionError when the divisor is zero.\<close>

definition truediv :: "real \<Rightarrow> real \<Rightarrow> py_error + real" where
  "truediv a b = (if b = 0 then Inl ZeroDivisionError else Inr (a / b))"

text \<open>\<open>math.log(x)\<close>: ValueError (math domain error) when \<open>x \<le> 0\<close>.\<close>

definition math_log :: "real \<Rightarrow> py_error + real" where
  "math_log x = (if x \<le> 0 then Inl ValueError else Inr (ln x))"

text \<open>\<open>min(xs)\<close>: ValueError on the empty list.\<close>

definition py_min :: "int list \<Rightarrow> py_error + int" where
  "py_min xs = (case xs of [] \<Rightarrow> Inl ValueError | x # rest \<Rightarrow> Inr (fold min rest x))"

text \<open>
  A list comprehension \<open>[f(x) for x in xs]\<close> whose element expression can raise: the
  elements are evaluated left to right and the first exception ends the evaluation.
\<close>

fun comprehension :: "('a \<Rightarrow> py_error + 'b) \<Rightarrow> 'a list \<Rightarrow> py_error + 'b list" where
  "comprehension f [] = Inr []"
| "comprehension f (x # xs) =
     and_then (f x) (\<lambda>y. and_then (comprehension f xs) (\<lambda>ys. Inr (y # ys)))"

subsection \<open>vanilla\<close>

text \<open>
  The element expression \<open>1 / (counts[t] / text_size)\<close> of the two comprehensions of
  \<open>vanilla\<close>: the lookup first, then the inner division, then the outer one.
\<close>

definition inverse_frequency :: "counts \<Rightarrow> int \<Rightarrow> string \<Rightarrow> py_error + real" where
  "inverse_frequency counts text_size t =
     and_then (getitem counts t) (\<lambda>c.
     and_then (truediv (of_int c) (of_int text_size)) (\<lambda>f.
     truediv 1 f))"

definition vanilla :: "string list \<Rightarrow> int \<Rightarrow> int \<Rightarrow> counts \<Rightarrow> counts \<Rightarrow> py_error + real" where
  "vanilla matching_terms source_distance target_distance source_counts target_counts =
     (let target_size = sum_list (map snd target_counts);
          source_size = sum_list (map snd source_counts)
      in and_then (comprehension (inverse_frequency target_counts target_size) matching_terms) (\<lambda>tw.
         and_then (comprehension (inverse_frequency source_counts source_size) matching_terms) (\<lambda>sw.
         and_then (truediv (sum_list tw + sum_list sw) (of_int (target_distance + source_distance))) (\<lambda>raw.
         math_log raw))))"

subsection \<open>\<open>_get_two_lowest\<close>\<close>

text \<open>
  The loop over \<open>match_tuple[2:]\<close>, with the two (term, count) pairs as its state.
\<close>

fun two_lowest_loop ::
  "counts \<Rightarrow> string \<times> int \<Rightarrow> string \<times> int \<Rightarrow> string list \<Rightarrow>
     py_error + ((string \<times> int) \<times> (string \<times> int))" where
  "two_lowest_loop counts lowest next_lowest [] = Inr (lowest, next_lowest)"
| "two_lowest_loop counts lowest next_lowest (term # rest) =
     and_then (getitem counts term) (\<lambda>term_count.
       if term_count < snd lowest then two_lowest_loop counts (term, term_count) lowest rest
       else if term_count < snd next_lowest then two_lowest_loop counts lowest (term, term_count) rest
       else two_lowest_loop counts lowest next_lowest rest)"

text \<open>
  \<open>match_tuple[0]\<close> and \<open>match_tuple[1]\<close> raise IndexError on a tuple that is too
  short; each is looked up in \<open>counts\<close> before the next one is read.
\<close>

definition get_two_lowest :: "string list \<Rightarrow> counts \<Rightarrow> py_error + (string \<times> string)" where
  "get_two_lowest matching_terms counts =
     (case matching_terms of
        [] \<Rightarrow> Inl IndexError
      | m0 # after0 \<Rightarrow>
          and_then (getitem counts m0) (\<lambda>c0.
            case after0 of
              [] \<Rightarrow> Inl IndexError
            | m1 # rest \<Rightarrow>
                and_then (getitem counts m1) (\<lambda>c1.
                and_then
                  (if c0 > c1 then two_lowest_loop counts (m1, c1) (m0, c0) rest
                   else two_lowest_loop counts (m0, c0) (m1, c1) rest)
                  (\<lambda>(lowest, next_lowest). Inr (fst lowest, fst next_lowest)))))"

subsection \<open>\<open>_get_indices\<close>\<close>

definition get_indices :: "string \<Rightarrow> string list \<Rightarrow> int list" where
  "get_indices term chunk =
     map (\<lambda>(i, token). int i) (filter (\<lambda>(i, token). token = term) (enumerate 0 chunk))"

subsection \<open>\<open>find_distance\<close>\<close>

text \<open>The two nested loops of the branch for several terms.\<close>

definition closest_pair :: "int list \<Rightarrow> int list \<Rightarrow> int \<Rightarrow> int" where
  "closest_pair term1_positions term2_positions min_dist0 =
     fold (\<lambda>pos1. fold (\<lambda>pos2 min_dist.
             let cur_dist = \<bar>pos2 - pos1\<bar>
             in if cur_dist < min_dist then cur_dist else min_dist) term2_positions)
          term1_positions min_dist0"

definition find_distance :: "string list \<Rightarrow> string list \<Rightarrow> counts \<Rightarrow> py_error + int" where
  "find_distance matching_terms chunk counts =
     (if length matching_terms = 1 then
        (let term = hd matching_terms;
             positions = get_indices term chunk;
             inter_position_diffs = map (\<lambda>(i, j). j - i) (zip (butlast positions) (tl positions))
         in py_min inter_position_diffs)
      else
        and_then (get_two_lowest matching_terms counts) (\<lambda>(term1, term2).
          let term1_positions = get_indices term1 chunk;
              term2_positions = get_indices term2 chunk
          in case term1_positions of
               [] \<Rightarrow> Inl IndexError
             | p1 # _ \<Rightarrow>
                 (case term2_positions of
                    [] \<Rightarrow> Inl IndexError
                  | p2 # _ \<Rightarrow>
                      Inr (closest_pair term1_positions term2_positions \<bar>p1 - p2\<bar>))))"

section \<open>Notions of the specification\<close>

text \<open>
  The total token count of a text is the sum of the values of its table; the count of a
  term is its entry; its frequency is the count divided by the total (the docstring of
  \<open>vanilla\<close>).
\<close>

definition text_size :: "counts \<Rightarrow> int" where
  "text_size counts = sum_list (map snd counts)"

definition count_of :: "counts \<Rightarrow> string \<Rightarrow> int" where
  "count_of counts t = the (map_of counts t)"

definition frequency :: "counts \<Rightarrow> string \<Rightarrow> real" where
  "frequency counts t = real_of_int (count_of counts t) / real_of_int (text_size counts)"

text \<open>The weight of one side: the sum over the matching terms of total / count.\<close>

definition weight :: "counts \<Rightarrow> string list \<Rightarrow> real" where
  "weight counts ms = (\<Sum>t\<leftarrow>ms. real_of_int (text_size counts) / real_of_int (count_of counts t))"

definition raw_score :: "string list \<Rightarrow> int \<Rightarrow> int \<Rightarrow> counts \<Rightarrow> counts \<Rightarrow> real" where
  "raw_score ms sd td sc tc = (weight tc ms + weight sc ms) / real_of_int (td + sd)"

text \<open>Every term is a key of the table.\<close>

definition key_complete :: "counts \<Rightarrow> string list \<Rightarrow> bool" where
  "key_complete counts ms \<longleftrightarrow> (\<forall>t\<in>set ms. \<exists>v. map_of counts t = Some v)"



text \<open>
  The tables on which both divisions of \<open>1 / (counts[t] / text_size)\<close> go through for
  every term: the term is a key, its count is not zero and the total is not zero.
\<close>

definition usable :: "counts \<Rightarrow> string list \<Rightarrow> bool" where
  "usable counts ms \<longleftrightarrow>
     (\<forall>t\<in>set ms. \<exists>c. map_of counts t = Some c \<and> c \<noteq> 0 \<and> text_size counts \<noteq> 0)"

text \<open>
  \<open>t1\<close> and \<open>t2\<close> are two terms of \<open>M\<close> with the smallest counts, the lowest first: no
  term has a smaller count than \<open>t1\<close>, and no term other than \<open>t1\<close> has a smaller count
  than \<open>t2\<close>.
\<close>

definition two_lowest :: "counts \<Rightarrow> string set \<Rightarrow> string \<Rightarrow> string \<Rightarrow> bool" where
  "two_lowest counts M t1 t2 \<longleftrightarrow>
     t1 \<in> M \<and> t2 \<in> M \<and> t1 \<noteq> t2 \<and> count_of counts t1 \<le> count_of counts t2 \<and>
     (\<forall>t\<in>M. t \<noteq> t1 \<longrightarrow> count_of counts t2 \<le> count_of counts t)"

text \<open>The gaps between adjacent positions, as \<open>find_distance\<close> computes them.\<close>

definition gaps :: "int list \<Rightarrow> int list" where
  "gaps positions = map (\<lambda>(i, j). j - i) (zip (butlast positions) (tl positions))"

text \<open>The distances of the full cross product of two position lists.\<close>

definition cross_distances :: "int list \<Rightarrow> int list \<Rightarrow> int list" where
  "cross_distances ps1 ps2 = concat (map (\<lambda>p1. map (\<lambda>p2. \<bar>p1 - p2\<bar>) ps2) ps1)"

section \<open>Basic facts\<close>

subsection \<open>Exceptions and comprehensions\<close>

lemma and_then_simps [simp]:
  "and_then (Inl e) k = Inl e" "and_then (Inr v) k = k v"
  by (simp_all add: and_then_def)

lemma and_then_eq_Inr:
  "and_then r k = Inr z \<longleftrightarrow> (\<exists>v. r = Inr v \<and> k v = Inr z)"
  by (cases r) simp_all

lemma and_then_eq_Inl:
  "and_then r k = Inl e \<longleftrightarrow> r = Inl e \<or> (\<exists>v. r = Inr v \<and> k v = Inl e)"
  by (cases r) auto

lemma comprehension_all_Inr:
  "(\<And>x. x \<in> set xs \<Longrightarrow> f x = Inr (g x)) \<Longrightarrow> comprehension f xs = Inr (map g xs)"
  by (induction xs) simp_all

lemma comprehension_Inr_elems:
  "comprehension f xs = Inr ys \<Longrightarrow> x \<in> set xs \<Longrightarrow> \<exists>y. f x = Inr y"
  by (induction xs arbitrary: ys) (auto simp: and_then_eq_Inr)

lemma comprehension_Inl_elem:
  "comprehension f xs = Inl e \<Longrightarrow> \<exists>x\<in>set xs. f x = Inl e"
  by (induction xs) (auto simp: and_then_eq_Inl)

lemma inverse_frequency_ok:
  "map_of counts t = Some c \<Longrightarrow> c \<noteq> 0 \<Longrightarrow> n \<noteq> 0 \<Longrightarrow>
     inverse_frequency counts n t = Inr (real_of_int n / real_of_int c)"
  by (simp add: inverse_frequency_def getitem_def truediv_def)

lemma inverse_frequency_missing:
  "map_of counts t = None \<Longrightarrow> inverse_frequency counts n t = Inl KeyError"
  by (simp add: inverse_frequency_def getitem_def)

lemma inverse_frequency_zero:
  "map_of counts t = Some c \<Longrightarrow> c = 0 \<or> n = 0 \<Longrightarrow>
     inverse_frequency counts n t = Inl ZeroDivisionError"
  by (auto simp add: inverse_frequency_def getitem_def truediv_def)

lemma inverse_frequency_Inr:
  assumes "inverse_frequency counts n t = Inr w"
  shows "\<exists>c. map_of counts t = Some c \<and> c \<noteq> 0 \<and> n \<noteq> 0"
proof (cases "map_of counts t")
  case None
  with assms show ?thesis by (simp add: inverse_frequency_missing)
next
  case (Some c)
  with assms inverse_frequency_zero [of counts t c n] show ?thesis by auto
qed

subsection \<open>The comprehensions of \<open>vanilla\<close>\<close>

lemma weights_usable:
  assumes "usable counts ms"
  shows "comprehension (inverse_frequency counts (text_size counts)) ms =
           Inr (map (\<lambda>t. real_of_int (text_size counts) / real_of_int (count_of counts t)) ms)"
proof (rule comprehension_all_Inr)
  fix t assume "t \<in> set ms"
  with assms obtain c where "map_of counts t = Some c" "c \<noteq> 0" "text_size counts \<noteq> 0"
    by (auto simp: usable_def)
  then show "inverse_frequency counts (text_size counts) t =
               Inr (real_of_int (text_size counts) / real_of_int (count_of counts t))"
    by (simp add: inverse_frequency_ok count_of_def)
qed

lemma weights_Inr_usable:
  assumes "comprehension (inverse_frequency counts (text_size counts)) ms = Inr ws"
  shows "usable counts ms"
  unfolding usable_def
proof
  fix t assume "t \<in> set ms"
  from comprehension_Inr_elems [OF assms this]
  obtain w where "inverse_frequency counts (text_size counts) t = Inr w" ..
  then show "\<exists>c. map_of counts t = Some c \<and> c \<noteq> 0 \<and> text_size counts \<noteq> 0"
    by (rule inverse_frequency_Inr)
qed

lemma vanilla_usable:
  assumes "usable tc ms" "usable sc ms"
  shows "vanilla ms sd td sc tc =
           (if td + sd = 0 then Inl ZeroDivisionError
            else if raw_score ms sd td sc tc \<le> 0 then Inl ValueError
            else Inr (ln (raw_score ms sd td sc tc)))"
  using weights_usable [OF assms(1)] weights_usable [OF assms(2)]
  by (simp add: vanilla_def text_size_def [symmetric] truediv_def math_log_def
      raw_score_def weight_def)

lemma vanilla_Inr_usable:
  assumes "vanilla ms sd td sc tc = Inr v"
  shows "usable tc ms \<and> usable sc ms"
  using assms
  by (auto simp: vanilla_def text_size_def [symmetric] and_then_eq_Inr
      dest: weights_Inr_usable)

lemma raw_score_swap: "raw_score ms td sd tc sc = raw_score ms sd td sc tc"
  by (simp add: raw_score_def add.commute)





lemma inverse_frequency_present:
  assumes "map_of counts t = Some c"
  shows "inverse_frequency counts n t = Inl ZeroDivisionError \<or> (\<exists>w. inverse_frequency counts n t = Inr w)"
  using assms by (simp add: inverse_frequency_def getitem_def truediv_def)

lemma weights_key_complete:
  assumes "key_complete counts ms"
  shows "comprehension (inverse_frequency counts n) ms = Inl ZeroDivisionError \<or>
         (\<exists>ws. comprehension (inverse_frequency counts n) ms = Inr ws)"
proof (cases "comprehension (inverse_frequency counts n) ms")
  case (Inl e)
  then obtain t where t: "t \<in> set ms" "inverse_frequency counts n t = Inl e"
    using comprehension_Inl_elem by blast
  with assms obtain c where "map_of counts t = Some c" by (auto simp: key_complete_def)
  from inverse_frequency_present [OF this, of n] t(2) have "e = ZeroDivisionError" by auto
  with Inl show ?thesis by simp
next
  case (Inr ws)
  then show ?thesis by simp
qed

lemma usable_nonempty: "usable counts ms \<Longrightarrow> ms \<noteq> [] \<Longrightarrow> text_size counts \<noteq> 0"
  by (cases ms) (auto simp: usable_def)








lemma frequency_le_iff:
  "0 < text_size counts \<Longrightarrow>
     frequency counts a \<le> frequency counts b \<longleftrightarrow> count_of counts a \<le> count_of counts b"
  by (simp add: frequency_def divide_le_cancel)




subsection \<open>Positions of a term\<close>

lemma set_get_indices:
  "set (get_indices t chunk) = {int i |i. i < length chunk \<and> chunk ! i = t}"
  by (force simp: get_indices_def in_set_enumerate_eq image_iff)

lemma strictly_ascending_get_indices: "sorted_wrt (<) (get_indices t chunk)"
proof -
  have "sorted_wrt (<) (map fst (enumerate 0 chunk))"
    by simp
  then have "sorted_wrt (\<lambda>p q. fst p < fst q) (enumerate 0 chunk)"
    by (simp only: sorted_wrt_map)
  then have "sorted_wrt (\<lambda>p q. fst p < fst q) (filter (\<lambda>(i, token). token = t) (enumerate 0 chunk))"
    by (rule sorted_wrt_filter)
  then show ?thesis
    by (simp add: get_indices_def sorted_wrt_map case_prod_beta)
qed

lemma length_filter_enumerate:
  "length (filter (\<lambda>(i, token). token = t) (enumerate n chunk)) = count_list chunk t"
  by (induction chunk arbitrary: n) simp_all

lemma length_get_indices: "length (get_indices t chunk) = count_list chunk t"
  by (simp add: get_indices_def length_filter_enumerate)

lemma get_indices_disjoint:
  "t1 \<noteq> t2 \<Longrightarrow> p1 \<in> set (get_indices t1 chunk) \<Longrightarrow> p2 \<in> set (get_indices t2 chunk) \<Longrightarrow> p1 \<noteq> p2"
  by (auto simp: set_get_indices)

subsection \<open>Gaps and minima\<close>

lemma gaps_nth: "gaps ps = map (\<lambda>i. ps ! Suc i - ps ! i) [0..<length ps - 1]"
  by (rule nth_equalityI) (simp_all add: gaps_def nth_butlast nth_tl)

lemma py_min_Min: "xs \<noteq> [] \<Longrightarrow> py_min xs = Inr (Min (set xs))"
proof (cases xs)
  case Nil
  then show "xs \<noteq> [] \<Longrightarrow> ?thesis" by simp
next
  case (Cons x rest)
  then show ?thesis using Min.set_eq_fold [of x rest] by (simp add: py_min_def)
qed

lemma find_distance_single:
  "find_distance [t] chunk counts = py_min (gaps (get_indices t chunk))"
  by (simp add: find_distance_def gaps_def Let_def)

subsection \<open>The closest pair\<close>

lemma Min_insert_min:
  fixes a b :: int
  assumes "finite S"
  shows "Min (insert (min a b) S) = Min (insert a (insert b S))"
proof (cases "S = {}")
  case True
  then show ?thesis by simp
next
  case False
  with assms show ?thesis by (simp add: min.assoc)
qed

lemma Min_insert_Min:
  fixes m :: int
  assumes "finite A" "finite B"
  shows "Min (insert (Min (insert m A)) B) = Min (insert m (A \<union> B))"
proof (cases "B = {}")
  case True
  then show ?thesis by simp
next
  case False
  have "Min (insert m (A \<union> B)) = Min (insert m A \<union> B)" by simp
  also have "\<dots> = min (Min (insert m A)) (Min B)"
    using assms False by (intro Min_Un) simp_all
  also have "\<dots> = Min (insert (Min (insert m A)) B)"
    using assms False by simp
  finally show ?thesis by simp
qed

lemma inner_loop_Min:
  fixes pos1 :: int
  shows "fold (\<lambda>pos2 min_dist. let cur_dist = \<bar>pos2 - pos1\<bar>
           in if cur_dist < min_dist then cur_dist else min_dist) ps2 m
   = Min (insert m ((\<lambda>pos2. \<bar>pos2 - pos1\<bar>) ` set ps2))"
proof (induction ps2 arbitrary: m)
  case Nil
  show ?case by simp
next
  case (Cons p ps2)
  have step: "(let cur_dist = \<bar>p - pos1\<bar> in if cur_dist < m then cur_dist else m) = min \<bar>p - pos1\<bar> m"
    by (auto simp: min_def Let_def)
  have "Min (insert (min \<bar>p - pos1\<bar> m) ((\<lambda>pos2. \<bar>pos2 - pos1\<bar>) ` set ps2))
          = Min (insert \<bar>p - pos1\<bar> (insert m ((\<lambda>pos2. \<bar>pos2 - pos1\<bar>) ` set ps2)))"
    by (rule Min_insert_min) simp
  then show ?case
    by (simp only: fold_simps step Cons.IH list.set image_insert insert_commute)
qed

lemma closest_pair_Min:
  "closest_pair ps1 ps2 m =
     Min (insert m {\<bar>p2 - p1\<bar> |p1 p2. p1 \<in> set ps1 \<and> p2 \<in> set ps2})"
  unfolding closest_pair_def
proof (induction ps1 arbitrary: m)
  case Nil
  show ?case by simp
next
  case (Cons p ps1)
  define row where "row = (\<lambda>pos2. \<bar>pos2 - p\<bar>) ` set ps2"
  define rest where "rest = {\<bar>p2 - p1\<bar> |p1 p2. p1 \<in> set ps1 \<and> p2 \<in> set ps2}"
  have "rest = (\<lambda>(p1, p2). \<bar>p2 - p1\<bar>) ` (set ps1 \<times> set ps2)"
    by (auto simp: rest_def)
  then have fin: "finite row" "finite rest"
    by (simp_all add: row_def)
  have split: "{\<bar>p2 - p1\<bar> |p1 p2. p1 \<in> set (p # ps1) \<and> p2 \<in> set ps2} = row \<union> rest"
    by (auto simp: row_def rest_def)
  let ?inner = "\<lambda>pos1. fold (\<lambda>pos2 min_dist. let cur_dist = \<bar>pos2 - pos1\<bar>
           in if cur_dist < min_dist then cur_dist else min_dist) ps2"
  have "fold ?inner (p # ps1) m = fold ?inner ps1 (?inner p m)"
    by simp
  also have "\<dots> = Min (insert (?inner p m) rest)"
    unfolding rest_def by (rule Cons.IH)
  also have "?inner p m = Min (insert m row)"
    unfolding row_def by (rule inner_loop_Min)
  also have "Min (insert (Min (insert m row)) rest) = Min (insert m (row \<union> rest))"
    using fin by (rule Min_insert_Min)
  finally show ?case
    by (simp only: split)
qed

subsection \<open>The two lowest counts\<close>

lemma getitem_present:
  "key_complete counts ms \<Longrightarrow> t \<in> set ms \<Longrightarrow> getitem counts t = Inr (count_of counts t)"
  by (auto simp: getitem_def key_complete_def count_of_def)

lemma getitem_Inr: "getitem counts t = Inr v \<Longrightarrow> map_of counts t = Some v"
  by (simp add: getitem_def split: option.splits)

lemma two_lowest_loop_spec:
  assumes "key_complete counts rest" "distinct rest" "a \<notin> set rest" "b \<notin> set rest"
    "a \<noteq> b" "count_of counts a \<le> count_of counts b"
  shows "\<exists>t1 t2. two_lowest_loop counts (a, count_of counts a) (b, count_of counts b) rest
                 = Inr ((t1, count_of counts t1), (t2, count_of counts t2)) \<and>
           two_lowest counts (insert a (insert b (set rest))) t1 t2"
  using assms
proof (induction rest arbitrary: a b)
  case Nil
  then show ?case by (simp add: two_lowest_def)
next
  case (Cons x rest)
  let ?c = "count_of counts"
  have cx: "getitem counts x = Inr (?c x)"
    using Cons.prems(1) by (rule getitem_present) simp
  have kc: "key_complete counts rest" using Cons.prems(1) by (simp add: key_complete_def)
  have dist: "distinct rest" "x \<notin> set rest" "a \<notin> set rest" "b \<notin> set rest" "x \<noteq> a" "x \<noteq> b"
    using Cons.prems by auto
  note ab = \<open>a \<noteq> b\<close> \<open>?c a \<le> ?c b\<close>
  consider (low) "?c x < ?c a" | (mid) "\<not> ?c x < ?c a" "?c x < ?c b"
    | (high) "\<not> ?c x < ?c a" "\<not> ?c x < ?c b"
    by blast
  then show ?case
  proof cases
    case low
    from Cons.IH [OF kc dist(1) dist(2) dist(3) dist(5)] low
    obtain t1 t2 where run: "two_lowest_loop counts (x, ?c x) (a, ?c a) rest = Inr ((t1, ?c t1), (t2, ?c t2))"
      and tl: "two_lowest counts (insert x (insert a (set rest))) t1 t2" by auto
    have "?c t2 \<le> ?c b"
    proof (cases "a = t1")
      case True
      with tl dist(5) have "?c t2 \<le> ?c x" by (simp add: two_lowest_def)
      with low ab(2) show ?thesis by simp
    next
      case False
      with tl have "?c t2 \<le> ?c a" by (simp add: two_lowest_def)
      with ab(2) show ?thesis by simp
    qed
    with tl have "two_lowest counts (insert a (insert b (set (x # rest)))) t1 t2"
      by (auto simp: two_lowest_def)
    with run low cx show ?thesis by auto
  next
    case mid
    from Cons.IH [OF kc dist(1) dist(3) dist(2) dist(5) [symmetric]] mid
    obtain t1 t2 where run: "two_lowest_loop counts (a, ?c a) (x, ?c x) rest = Inr ((t1, ?c t1), (t2, ?c t2))"
      and tl: "two_lowest counts (insert a (insert x (set rest))) t1 t2" by auto
    have "?c t2 \<le> ?c b"
    proof (cases "x = t1")
      case True
      with tl dist(5) have "?c t2 \<le> ?c a" by (simp add: two_lowest_def)
      with ab(2) show ?thesis by simp
    next
      case False
      with tl have "?c t2 \<le> ?c x" by (simp add: two_lowest_def)
      with mid show ?thesis by simp
    qed
    with tl have "two_lowest counts (insert a (insert b (set (x # rest)))) t1 t2"
      by (auto simp: two_lowest_def)
    with run mid cx show ?thesis by auto
  next
    case high
    from Cons.IH [OF kc dist(1) dist(3) dist(4) ab]
    obtain t1 t2 where run: "two_lowest_loop counts (a, ?c a) (b, ?c b) rest = Inr ((t1, ?c t1), (t2, ?c t2))"
      and tl: "two_lowest counts (insert a (insert b (set rest))) t1 t2" by auto
    have "?c t2 \<le> ?c x"
    proof (cases "b = t1")
      case True
      with tl ab(1) have "?c t2 \<le> ?c a" by (simp add: two_lowest_def)
      with ab(2) high show ?thesis by simp
    next
      case False
      with tl have "?c t2 \<le> ?c b" by (simp add: two_lowest_def)
      with high show ?thesis by simp
    qed
    with tl have "two_lowest counts (insert a (insert b (set (x # rest)))) t1 t2"
      by (auto simp: two_lowest_def)
    with run high cx show ?thesis by auto
  qed
qed

lemma get_two_lowest_spec:
  assumes "distinct ms" "2 \<le> length ms" "key_complete counts ms"
  shows "\<exists>t1 t2. get_two_lowest ms counts = Inr (t1, t2) \<and> two_lowest counts (set ms) t1 t2"
proof -
  from assms(2) obtain m0 m1 rest where ms: "ms = m0 # m1 # rest"
    by (cases ms; cases "tl ms") auto
  let ?c = "count_of counts"
  have g0: "getitem counts m0 = Inr (?c m0)" and g1: "getitem counts m1 = Inr (?c m1)"
    using assms(3) by (auto intro: getitem_present simp: ms)
  have kc: "key_complete counts rest" using assms(3) by (simp add: key_complete_def ms)
  have dist: "distinct rest" "m0 \<notin> set rest" "m1 \<notin> set rest" "m0 \<noteq> m1"
    using assms(1) by (auto simp: ms)
  show ?thesis
  proof (cases "?c m0 > ?c m1")
    case True
    then have le: "?c m1 \<le> ?c m0" by simp
    from two_lowest_loop_spec [OF kc dist(1) dist(3) dist(2) dist(4) [symmetric] le]
    obtain t1 t2 where
      "two_lowest_loop counts (m1, ?c m1) (m0, ?c m0) rest = Inr ((t1, ?c t1), (t2, ?c t2))"
      "two_lowest counts (insert m1 (insert m0 (set rest))) t1 t2" by blast
    with True show ?thesis
      by (simp add: get_two_lowest_def ms g0 g1 insert_commute)
  next
    case False
    then have le: "?c m0 \<le> ?c m1" by simp
    from two_lowest_loop_spec [OF kc dist(1) dist(2) dist(3) dist(4) le]
    obtain t1 t2 where
      "two_lowest_loop counts (m0, ?c m0) (m1, ?c m1) rest = Inr ((t1, ?c t1), (t2, ?c t2))"
      "two_lowest counts (insert m0 (insert m1 (set rest))) t1 t2" by blast
    with False show ?thesis
      by (simp add: get_two_lowest_def ms g0 g1)
  qed
qed

lemma two_lowest_loop_Inr_keys:
  "two_lowest_loop counts (a, ca) (b, cb) rest = Inr r \<Longrightarrow> key_complete counts rest"
proof (induction rest arbitrary: a ca b cb)
  case Nil
  show ?case by (simp add: key_complete_def)
next
  case (Cons x rest)
  from Cons.prems obtain cx where cx: "getitem counts x = Inr cx"
    by (auto simp: and_then_eq_Inr)
  with Cons.prems have "\<exists>a' ca' b' cb'. two_lowest_loop counts (a', ca') (b', cb') rest = Inr r"
    by (auto split: if_splits)
  with Cons.IH have "key_complete counts rest" by blast
  with getitem_Inr [OF cx] show ?case by (simp add: key_complete_def)
qed

lemma get_two_lowest_Inr_keys:
  assumes "get_two_lowest ms counts = Inr r"
  shows "2 \<le> length ms \<and> key_complete counts ms"
proof -
  from assms obtain m0 after0 where ms0: "ms = m0 # after0"
    by (cases ms) (auto simp: get_two_lowest_def)
  with assms obtain c0 where c0: "getitem counts m0 = Inr c0"
    by (auto simp: get_two_lowest_def and_then_eq_Inr)
  with assms ms0 obtain m1 rest where ms1: "after0 = m1 # rest"
    by (cases after0) (auto simp: get_two_lowest_def)
  with assms ms0 c0 obtain c1 where c1: "getitem counts m1 = Inr c1"
    by (auto simp: get_two_lowest_def and_then_eq_Inr)
  with assms ms0 ms1 c0 have "\<exists>a ca b cb r'. two_lowest_loop counts (a, ca) (b, cb) rest = Inr r'"
    by (auto simp: get_two_lowest_def and_then_eq_Inr split: if_splits) blast+
  then have "key_complete counts rest" using two_lowest_loop_Inr_keys by blast
  with getitem_Inr [OF c0] getitem_Inr [OF c1] show ?thesis
    by (simp add: ms0 ms1 key_complete_def)
qed

lemma two_lowest_unique:
  assumes "two_lowest counts M t1 t2" "two_lowest counts M u1 u2"
    "inj_on (count_of counts) M"
  shows "u1 = t1 \<and> u2 = t2"
proof -
  let ?c = "count_of counts"
  have mem: "t1 \<in> M" "t2 \<in> M" "u1 \<in> M" "u2 \<in> M" "t1 \<noteq> t2" "u1 \<noteq> u2"
    using assms(1,2) by (simp_all add: two_lowest_def)
  have t: "?c t1 \<le> ?c t2" "\<And>t. t \<in> M \<Longrightarrow> t \<noteq> t1 \<Longrightarrow> ?c t2 \<le> ?c t"
    using assms(1) by (simp_all add: two_lowest_def)
  have u: "?c u1 \<le> ?c u2" "\<And>t. t \<in> M \<Longrightarrow> t \<noteq> u1 \<Longrightarrow> ?c u2 \<le> ?c t"
    using assms(2) by (simp_all add: two_lowest_def)
  have eqI: "\<And>x y. x \<in> M \<Longrightarrow> y \<in> M \<Longrightarrow> ?c x = ?c y \<Longrightarrow> x = y"
    using assms(3) by (simp add: inj_on_def)
  have first: "u1 = t1"
  proof (rule ccontr)
    assume ne: "u1 \<noteq> t1"
    then have a: "?c t2 \<le> ?c u1" using t(2) mem(3) by blast
    from ne have b: "?c u2 \<le> ?c t1" using u(2) mem(1) by metis
    from a b t(1) u(1) have "?c t1 = ?c t2" by simp
    with eqI mem show False by blast
  qed
  have second: "u2 = t2"
  proof -
    have "?c u2 \<le> ?c t2" using u(2) [OF mem(2)] mem(5) first by simp
    moreover have "?c t2 \<le> ?c u2" using t(2) [OF mem(4)] mem(6) first by simp
    ultimately show ?thesis using eqI mem by simp
  qed
  from first second show ?thesis ..
qed

subsection \<open>The two branches of \<open>find_distance\<close>\<close>

lemma set_gaps:
  "set (gaps ps) = (\<lambda>i. ps ! Suc i - ps ! i) ` {0..<length ps - 1}"
  by (simp add: gaps_nth)

lemma gaps_empty_iff: "gaps ps = [] \<longleftrightarrow> length ps < 2"
  by (auto simp: gaps_nth)

lemma gaps_positive:
  assumes "sorted_wrt (<) ps" "g \<in> set (gaps ps)"
  shows "1 \<le> g"
proof -
  from assms(2) obtain i where i: "i < length ps - 1" "g = ps ! Suc i - ps ! i"
    by (auto simp: set_gaps)
  from i(1) have "i < Suc i" "Suc i < length ps" by simp_all
  with assms(1) have "ps ! i < ps ! Suc i" by (rule sorted_wrt_nth_less)
  with i(2) show ?thesis by simp
qed

lemma set_cross_distances:
  "set (cross_distances ps1 ps2) = {\<bar>p2 - p1\<bar> |p1 p2. p1 \<in> set ps1 \<and> p2 \<in> set ps2}"
  unfolding cross_distances_def by (auto simp: abs_minus_commute) 

lemma find_distance_several:
  assumes "length ms \<noteq> 1" "get_two_lowest ms counts = Inr (t1, t2)"
    "get_indices t1 chunk \<noteq> []" "get_indices t2 chunk \<noteq> []"
  shows "find_distance ms chunk counts =
           Inr (Min (set (cross_distances (get_indices t1 chunk) (get_indices t2 chunk))))"
proof -
  let ?P1 = "get_indices t1 chunk" and ?P2 = "get_indices t2 chunk"
  from assms(3,4) obtain p1 r1 p2 r2 where ps: "?P1 = p1 # r1" "?P2 = p2 # r2"
    by (cases ?P1; cases ?P2) auto
  let ?X = "{\<bar>q2 - q1\<bar> |q1 q2. q1 \<in> set ?P1 \<and> q2 \<in> set ?P2}"
  have "\<bar>p2 - p1\<bar> \<in> ?X" using ps by auto
  then have "\<bar>p1 - p2\<bar> \<in> ?X" by (simp only: abs_minus_commute [of p1 p2])
  then have "insert \<bar>p1 - p2\<bar> ?X = ?X" by (rule insert_absorb)
  then have "closest_pair ?P1 ?P2 \<bar>p1 - p2\<bar> = Min ?X"
    by (simp only: closest_pair_Min)
  moreover have "find_distance ms chunk counts = Inr (closest_pair ?P1 ?P2 \<bar>p1 - p2\<bar>)"
    using assms(1,2) ps by (simp add: find_distance_def)
  ultimately show ?thesis by (simp only: set_cross_distances)
qed

lemma find_distance_several_Inr:
  assumes "length ms \<noteq> 1" "find_distance ms chunk counts = Inr d"
  shows "\<exists>t1 t2. get_two_lowest ms counts = Inr (t1, t2) \<and>
           get_indices t1 chunk \<noteq> [] \<and> get_indices t2 chunk \<noteq> []"
proof -
  from assms obtain r where r: "get_two_lowest ms counts = Inr r"
    by (auto simp: find_distance_def and_then_eq_Inr)
  obtain t1 t2 where t: "r = (t1, t2)" by (cases r)
  from assms r t have "get_indices t1 chunk \<noteq> []" "get_indices t2 chunk \<noteq> []"
    by (auto simp: find_distance_def Let_def split: list.splits)
  with r t show ?thesis by blast
qed

section \<open>The score\<close>








text \<open>
  C7. For a non-empty set of matching terms that are all keys of both tables, \<open>vanilla\<close>
  raises ZeroDivisionError, and so returns no value, whenever the two distances sum to
  zero or the values of one of the tables sum to zero.
\<close>

theorem vanilla_division_by_zero:
  assumes "ms \<noteq> []" "key_complete tc ms" "key_complete sc ms"
    "td + sd = 0 \<or> text_size tc = 0 \<or> text_size sc = 0"
  shows "vanilla ms sd td sc tc = Inl ZeroDivisionError"
proof -
  let ?T = "comprehension (inverse_frequency tc (text_size tc)) ms"
  let ?S = "comprehension (inverse_frequency sc (text_size sc)) ms"
  have van: "vanilla ms sd td sc tc =
      and_then ?T (\<lambda>tw. and_then ?S (\<lambda>sw.
        and_then (truediv (sum_list tw + sum_list sw) (real_of_int (td + sd))) math_log))"
    by (simp add: vanilla_def text_size_def)
  from weights_key_complete [OF assms(2), of "text_size tc"] show ?thesis
  proof
    assume "?T = Inl ZeroDivisionError"
    then show ?thesis by (simp add: van)
  next
    assume "\<exists>ws. ?T = Inr ws"
    then obtain tw where tw: "?T = Inr tw" ..
    then have ut: "usable tc ms" by (rule weights_Inr_usable)
    from weights_key_complete [OF assms(3), of "text_size sc"] show ?thesis
    proof
      assume "?S = Inl ZeroDivisionError"
      with tw show ?thesis by (simp add: van)
    next
      assume "\<exists>ws. ?S = Inr ws"
      then obtain sw where sw: "?S = Inr sw" ..
      then have us: "usable sc ms" by (rule weights_Inr_usable)
      from ut us assms(1) have "text_size tc \<noteq> 0" "text_size sc \<noteq> 0"
        by (simp_all add: usable_nonempty)
      with assms(4) have "td + sd = 0" by simp
      with tw sw show ?thesis by (simp add: van truediv_def)
    qed
  qed
qed

theorem vanilla_division_by_zero_witness:
  "key_complete [(''love'', 2), (''war'', 8)] [''love''] \<and>
   key_complete [(''love'', 1), (''peace'', 9)] [''love''] \<and>
   vanilla [''love''] 0 0 [(''love'', 1), (''peace'', 9)] [(''love'', 2), (''war'', 8)]
     = Inl ZeroDivisionError"
proof -
  have k: "key_complete [(''love'', 2), (''war'', 8)] [''love'']"
    "key_complete [(''love'', 1), (''peace'', 9)] [''love'']"
    by (simp_all add: key_complete_def)
  from vanilla_division_by_zero [OF _ k, of 0 0] k show ?thesis by simp
qed

text \<open>
  C10. Swapping the sides leaves the score unchanged: on every input on which \<open>vanilla\<close>
  returns a value, the call with the two distances exchanged and the two tables exchanged
  returns the same value.
\<close>

theorem vanilla_symmetric:
  "(\<exists>v. vanilla ms sd td sc tc = Inr v) \<Longrightarrow>
     vanilla ms td sd tc sc = vanilla ms sd td sc tc"
proof -
  assume "\<exists>v. vanilla ms sd td sc tc = Inr v"
  then obtain v where "vanilla ms sd td sc tc = Inr v" ..
  then have u: "usable tc ms" "usable sc ms" using vanilla_Inr_usable by blast+
  show ?thesis
    unfolding vanilla_usable [OF u] vanilla_usable [OF u(2) u(1)] raw_score_swap [of ms td sd tc sc]
    by (simp add: add.commute)
qed

theorem vanilla_symmetric_witness:
  "vanilla [''love''] 5 3 [(''love'', 1), (''peace'', 9)] [(''love'', 2), (''war'', 8)] = Inr (ln (15 / 8)) \<and>
   vanilla [''love''] 3 5 [(''love'', 2), (''war'', 8)] [(''love'', 1), (''peace'', 9)] = Inr (ln (15 / 8))"
proof -
  have v: "vanilla [''love''] 5 3 [(''love'', 1), (''peace'', 9)] [(''love'', 2), (''war'', 8)] = Inr (ln (15 / 8))"
    by (simp add: vanilla_def inverse_frequency_def getitem_def truediv_def math_log_def)
  then have "\<exists>v. vanilla [''love''] 5 3 [(''love'', 1), (''peace'', 9)] [(''love'', 2), (''war'', 8)] = Inr v"
    by blast
  from vanilla_symmetric [OF this] v show ?thesis by simp
qed

section \<open>The two rarest terms\<close>

text \<open>
  C4. For a set of at least two matching terms, a table that has every one of them as a
  key, and any enumeration \<open>ms\<close> of the set, \<open>_get_two_lowest\<close> returns two terms of the
  set with the smallest counts, the lowest first. When the counts of the matching terms
  are pairwise distinct, every enumeration gives the same pair. On the counts
  \<open>{a: 100, b: 5, c: 50}\<close> and the terms \<open>{a, b, c}\<close> the result is \<open>(b, c)\<close> for every
  enumeration.
\<close>

theorem get_two_lowest_correct:
  "(distinct ms \<and> 2 \<le> length ms \<and> key_complete counts ms \<longrightarrow>
      (\<exists>t1 t2. get_two_lowest ms counts = Inr (t1, t2) \<and> two_lowest counts (set ms) t1 t2)) \<and>
   (distinct ms \<and> distinct ms' \<and> set ms' = set ms \<and> 2 \<le> length ms \<and>
    key_complete counts ms \<and> inj_on (count_of counts) (set ms) \<longrightarrow>
      get_two_lowest ms' counts = get_two_lowest ms counts) \<and>
   (distinct ms \<and> set ms = {''a'', ''b'', ''c''} \<longrightarrow>
      get_two_lowest ms [(''a'', 100), (''b'', 5), (''c'', 50)] = Inr (''b'', ''c''))"
proof (intro conjI impI)
  assume "distinct ms \<and> 2 \<le> length ms \<and> key_complete counts ms"
  then show "\<exists>t1 t2. get_two_lowest ms counts = Inr (t1, t2) \<and> two_lowest counts (set ms) t1 t2"
    by (simp add: get_two_lowest_spec)
next
  assume h: "distinct ms \<and> distinct ms' \<and> set ms' = set ms \<and> 2 \<le> length ms \<and>
    key_complete counts ms \<and> inj_on (count_of counts) (set ms)"
  then have "length ms' = length ms" by (metis distinct_card)
  with h have h': "distinct ms'" "2 \<le> length ms'" "key_complete counts ms'"
    by (simp_all add: key_complete_def)
  from h get_two_lowest_spec [of ms counts] obtain t1 t2 where
    a: "get_two_lowest ms counts = Inr (t1, t2)" "two_lowest counts (set ms) t1 t2" by blast
  from h' get_two_lowest_spec [of ms' counts] obtain u1 u2 where
    b: "get_two_lowest ms' counts = Inr (u1, u2)" "two_lowest counts (set ms') u1 u2" by blast
  from h b(2) have "two_lowest counts (set ms) u1 u2" by simp
  with two_lowest_unique [OF a(2)] h have "u1 = t1 \<and> u2 = t2" by blast
  with a(1) b(1) show "get_two_lowest ms' counts = get_two_lowest ms counts" by simp
next
  let ?counts = "[(''a'', 100), (''b'', 5), (''c'', 50)]"
  assume h: "distinct ms \<and> set ms = {''a'', ''b'', ''c''}"
  then have "card (set ms) = length ms" by (intro distinct_card) simp
  with h have len: "2 \<le> length ms" by simp
  from h have kc: "key_complete ?counts ms" by (simp add: key_complete_def)
  from h len kc get_two_lowest_spec [of ms ?counts] obtain t1 t2 where
    a: "get_two_lowest ms ?counts = Inr (t1, t2)" "two_lowest ?counts (set ms) t1 t2" by blast
  from h have b: "two_lowest ?counts (set ms) ''b'' ''c''"
    by (simp add: two_lowest_def count_of_def)
  from h have "inj_on (count_of ?counts) (set ms)" by (simp add: count_of_def)
  from two_lowest_unique [OF b a(2) this] a(1)
  show "get_two_lowest ms ?counts = Inr (''b'', ''c'')" by simp
qed

theorem get_two_lowest_correct_witness:
  "distinct [''c'', ''a'', ''b''] \<and> 2 \<le> length [''c'', ''a'', ''b''] \<and>
   key_complete [(''a'', 100), (''b'', 5), (''c'', 50)] [''c'', ''a'', ''b''] \<and>
   set [''c'', ''a'', ''b''] = {''a'', ''b'', ''c''} \<and>
   get_two_lowest [''c'', ''a'', ''b''] [(''a'', 100), (''b'', 5), (''c'', 50)] = Inr (''b'', ''c'') \<and>
   two_lowest [(''a'', 100), (''b'', 5), (''c'', 50)] (set [''c'', ''a'', ''b'']) ''b'' ''c''"
proof -
  let ?ms = "[''c'', ''a'', ''b'']" and ?counts = "[(''a'', 100), (''b'', 5), (''c'', 50)]"
  have h1: "distinct ?ms \<and> 2 \<le> length ?ms \<and> key_complete ?counts ?ms"
    by (simp add: key_complete_def)
  have h3: "distinct ?ms \<and> set ?ms = {''a'', ''b'', ''c''}"
    by auto
  note inst = get_two_lowest_correct [of ?ms ?counts ?ms]
  from inst [THEN conjunct1, rule_format, OF h1] obtain t1 t2 where
    sel: "get_two_lowest ?ms ?counts = Inr (t1, t2)" "two_lowest ?counts (set ?ms) t1 t2"
    by blast
  note ex = inst [THEN conjunct2, THEN conjunct2, rule_format, OF h3]
  with sel have "two_lowest ?counts (set ?ms) ''b'' ''c''" by simp
  with ex h1 h3 show ?thesis by blast
qed

section \<open>The distance\<close>



text \<open>
  C8. For a single matching term that occurs fewer than two times in the chunk (not at
  all, or once), \<open>find_distance\<close> raises an exception (the ValueError of \<open>min\<close> on an
  empty list) and returns no integer.
\<close>

theorem find_distance_single_term_too_few:
  assumes "count_list chunk t < 2"
  shows "find_distance [t] chunk counts = Inl ValueError"
proof -
  from assms have "gaps (get_indices t chunk) = []"
    by (simp add: gaps_empty_iff length_get_indices)
  then show ?thesis by (simp add: find_distance_single py_min_def)
qed

theorem find_distance_single_term_too_few_witness:
  "count_list [''a'', ''x'', ''a''] ''x'' < 2 \<and>
   find_distance [''x''] [''a'', ''x'', ''a''] [(''x'', 1), (''a'', 2)] = Inl ValueError \<and>
   count_list [''a'', ''a''] ''x'' < 2 \<and>
   find_distance [''x''] [''a'', ''a''] [(''x'', 1), (''a'', 2)] = Inl ValueError"
proof -
  have a: "count_list [''a'', ''x'', ''a''] ''x'' < 2" and b: "count_list [''a'', ''a''] ''x'' < 2"
    by simp_all
  from find_distance_single_term_too_few [OF a] find_distance_single_term_too_few [OF b] a b
  show ?thesis by blast
qed



text \<open>
  C9. Whenever \<open>find_distance\<close> returns a value on a set of matching terms, the value is
  a non-negative integer, and indeed at least 1: the positions of a term are strictly
  ascending, and the two terms selected among several are different tokens.
\<close>

theorem find_distance_at_least_one:
  assumes "distinct ms" "find_distance ms chunk counts = Inr d"
  shows "0 \<le> d \<and> 1 \<le> d"
proof -
  have "1 \<le> d"
  proof (cases "length ms = 1")
    case True
    then obtain t where ms: "ms = [t]" by (cases ms) auto
    let ?G = "gaps (get_indices t chunk)"
    from assms(2) have run: "py_min ?G = Inr d" by (simp add: ms find_distance_single)
    then have ne: "?G \<noteq> []" by (auto simp: py_min_def)
    with run have "d = Min (set ?G)" by (simp add: py_min_Min)
    with ne have "d \<in> set ?G" using Min_in [of "set ?G"] by simp
    with strictly_ascending_get_indices show ?thesis by (rule gaps_positive)
  next
    case False
    from find_distance_several_Inr [OF False assms(2)] obtain t1 t2 where
      sel: "get_two_lowest ms counts = Inr (t1, t2)"
      and ne: "get_indices t1 chunk \<noteq> []" "get_indices t2 chunk \<noteq> []" by blast
    from get_two_lowest_Inr_keys [OF sel] get_two_lowest_spec [OF assms(1), of counts] sel
    have "t1 \<noteq> t2" by (auto simp: two_lowest_def)
    let ?D = "cross_distances (get_indices t1 chunk) (get_indices t2 chunk)"
    from find_distance_several [OF False sel ne] assms(2) have d: "d = Min (set ?D)" by simp
    from ne have "?D \<noteq> []" by (cases "get_indices t1 chunk"; cases "get_indices t2 chunk")
        (simp_all add: cross_distances_def)
    with d have "d \<in> set ?D" using Min_in [of "set ?D"] by simp
    then obtain p1 p2 where "d = \<bar>p2 - p1\<bar>" "p1 \<in> set (get_indices t1 chunk)"
      "p2 \<in> set (get_indices t2 chunk)" by (auto simp: set_cross_distances)
    with get_indices_disjoint [OF \<open>t1 \<noteq> t2\<close>] have "d = \<bar>p2 - p1\<bar>" "p1 \<noteq> p2" by blast+
    then show ?thesis by simp
  qed
  then show ?thesis by simp
qed

theorem find_distance_at_least_one_witness:
  "distinct [''b'', ''a''] \<and>
   find_distance [''b'', ''a''] [''a'', ''b'', ''c'', ''a''] [(''a'', 7), (''b'', 3)] = Inr 1 \<and>
   (1::int) \<le> 1"
proof -
  have d: "distinct [''b'', ''a'']" by simp
  have r: "find_distance [''b'', ''a''] [''a'', ''b'', ''c'', ''a''] [(''a'', 7), (''b'', 3)] = Inr 1"
    by (simp add: find_distance_def get_two_lowest_def getitem_def get_indices_def closest_pair_def)
  from find_distance_at_least_one [OF d r] d r show ?thesis by simp
qed

end
